theory Spec2Isabelle
  imports
    Main
    "HOL-Library.Product_Lexorder"
    "HOL-Library.List_Lexorder"
    "HOL-Library.Char_ord"
begin

section \<open>Data model\<close>

text \<open>
  The search index keeps two tables. A visit is identified by its compound primary key
  \<^verbatim>\<open>[time, url]\<close>; a bookmark is an object \<^verbatim>\<open>{ time, url }\<close>. Both are kept here as
  pairs \<open>(time, url)\<close>, in no particular order: every query below sorts by the index it
  goes through. Timestamps are JavaScript numbers holding integers.
\<close>

record db =
  visits :: "(int \<times> string) list"
  bookmarks :: "(int \<times> string) list"

text \<open>
  \<^verbatim>\<open>Partial<SearchParams>\<close>: every field may be undefined (\<open>None\<close>); an undefined
  \<^verbatim>\<open>bookmarks\<close> flag is falsy.
\<close>

record SearchParams =
  startDate :: "int option"
  endDate :: "int option"
  skip :: "int option"
  limit :: "int option"
  bookmarks :: bool

text \<open>
  The sentinel strings \<^verbatim>\<open>Storage.MIN_STR\<close> and \<^verbatim>\<open>Storage.MAX_STR\<close> are declared outside
  the aggregation module; they are taken as parameters.
\<close>

record Storage =
  MIN_STR :: string
  MAX_STR :: string

record FilteredURLs =
  isAllowed :: "string \<Rightarrow> bool"

text \<open>
  A JavaScript number that is either an integer or \<^verbatim>\<open>Infinity\<close> (what \<^verbatim>\<open>Math.min()\<close>
  of no arguments returns).
\<close>

datatype number = Finite int | Infinity

fun number_ge :: "number \<Rightarrow> int \<Rightarrow> bool" where
  "number_ge Infinity t = True"
| "number_ge (Finite n) t = (t \<le> n)"

fun number_min :: "number \<Rightarrow> number \<Rightarrow> number" where
  "number_min Infinity y = y"
| "number_min (Finite a) Infinity = Finite a"
| "number_min (Finite a) (Finite b) = Finite (min a b)"

fun Math_min :: "int list \<Rightarrow> number" where
  "Math_min [] = Infinity"
| "Math_min (v # vs) = number_min (Finite v) (Math_min vs)"

fun number_minus_1 :: "number \<Rightarrow> number" where
  "number_minus_1 Infinity = Infinity"
| "number_minus_1 (Finite n) = Finite (n - 1)"

subsection \<open>JavaScript \<^verbatim>\<open>Map\<close> from URL to time\<close>

text \<open>
  A \<^verbatim>\<open>Map\<close> iterates in insertion order, and \<^verbatim>\<open>set\<close> on a key already present keeps
  the key's position: an association list with \<open>Map_set\<close> replacing in place.
\<close>

type_synonym PageResultsMap = "(string \<times> int) list"

definition Map_get :: "PageResultsMap \<Rightarrow> string \<Rightarrow> int option" where
  "Map_get m url = map_of m url"

definition Map_has :: "PageResultsMap \<Rightarrow> string \<Rightarrow> bool" where
  "Map_has m url = (map_of m url \<noteq> None)"

fun Map_set :: "string \<Rightarrow> int \<Rightarrow> PageResultsMap \<Rightarrow> PageResultsMap" where
  "Map_set url time [] = [(url, time)]"
| "Map_set url time ((k, v) # m) =
     (if k = url then (k, time) # m else (k, v) # Map_set url time m)"

definition Map_size :: "PageResultsMap \<Rightarrow> int" where
  "Map_size m = int (length m)"

definition Map_new :: "(string \<times> int) list \<Rightarrow> PageResultsMap" where
  "Map_new entries = fold (\<lambda>(k, v). Map_set k v) entries []"

definition Map_forEach :: "(int \<Rightarrow> string \<Rightarrow> 's \<Rightarrow> 's) \<Rightarrow> PageResultsMap \<Rightarrow> 's \<Rightarrow> 's" where
  "Map_forEach cb m s = fold (\<lambda>(k, v). cb v k) m s"

subsection \<open>Dexie collections\<close>

text \<open>
  \<^verbatim>\<open>.until(stop).each(cb)\<close>: the stop predicate is asked before each record is handed to
  the callback; once it holds the iteration ends and the record is not delivered. The
  state \<open>s\<close> is what the two closures share.
\<close>

fun each_until :: "('s \<Rightarrow> bool) \<Rightarrow> ('a \<Rightarrow> 's \<Rightarrow> 's) \<Rightarrow> 'a list \<Rightarrow> 's \<Rightarrow> 's" where
  "each_until stop cb [] s = s"
| "each_until stop cb (x # xs) s = (if stop s then s else each_until stop cb xs (cb x s))"

text \<open>
  \<^verbatim>\<open>db.bookmarks.where('url').anyOf(urls)\<close>: the bookmarks of the given pages, in the order
  of the \<^verbatim>\<open>url\<close> index.
\<close>

definition bookmarks_where_url_anyOf :: "db \<Rightarrow> string list \<Rightarrow> (int \<times> string) list" where
  "bookmarks_where_url_anyOf d urls =
     filter (\<lambda>(time, url). url \<in> set urls)
       (sort_key (\<lambda>(time, url). (url, time)) (db.bookmarks d))"

text \<open>
  \<^verbatim>\<open>db.visits.where('url').equals(currUrl).reverse()\<close>: the visits of one page, latest
  primary key first.
\<close>

definition visits_where_url_equals_reverse :: "db \<Rightarrow> string \<Rightarrow> (int \<times> string) list" where
  "visits_where_url_equals_reverse d currUrl =
     rev (sort (filter (\<lambda>(time, url). url = currUrl) (visits d)))"

text \<open>
  \<^verbatim>\<open>db.visits.where('[time+url]').between(lower, upper, true, true).reverse()\<close>: compound
  keys compare lexicographically, both bounds included.
\<close>

definition visits_where_time_url_between_reverse ::
    "db \<Rightarrow> int \<times> string \<Rightarrow> int \<times> string \<Rightarrow> (int \<times> string) list" where
  "visits_where_time_url_between_reverse d lower upper =
     rev (sort (filter (\<lambda>key. lower \<le> key \<and> key \<le> upper) (visits d)))"

text \<open>
  \<^verbatim>\<open>db.bookmarks.where('time').between(lower, upper, true, true).reverse()\<close>: latest
  first; the upper bound may be \<^verbatim>\<open>Infinity\<close>.
\<close>

definition bookmarks_where_time_between_reverse ::
    "db \<Rightarrow> int \<Rightarrow> number \<Rightarrow> (int \<times> string) list" where
  "bookmarks_where_time_between_reverse d lower upper =
     rev (sort (filter (\<lambda>(time, url). lower \<le> time \<and> number_ge upper time) (db.bookmarks d)))"

section \<open>\<^verbatim>\<open>mapUrlsToLatestEvents\<close>\<close>

text \<open>
  The closure \<^verbatim>\<open>attemptAdd(urlTimeMap, skipDateCheck)(time, url)\<close>. It mutates the map
  and returns a flag; here it returns the flag and the map. \<^verbatim>\<open>urlTimeMap.get(url) || 0\<close>
  is 0 for a page without an entry.
\<close>

definition attemptAdd ::
    "int option \<Rightarrow> int option \<Rightarrow> PageResultsMap \<Rightarrow> bool \<Rightarrow> int \<Rightarrow> string
      \<Rightarrow> bool \<times> PageResultsMap" where
  "attemptAdd startDate' endDate' urlTimeMap skipDateCheck time url =
     (let existing = (case Map_get urlTimeMap url of None \<Rightarrow> 0 | Some t \<Rightarrow> t) in
      if existing > time \<or>
         (\<not> skipDateCheck \<and> (case endDate' of None \<Rightarrow> False | Some e \<Rightarrow> e < time)) \<or>
         (\<not> skipDateCheck \<and> (case startDate' of None \<Rightarrow> False | Some s \<Rightarrow> s > time))
      then (False, urlTimeMap)
      else (True, Map_set url time urlTimeMap))"

text \<open>The bookmarks of the requested pages, admitted with \<^verbatim>\<open>skipDateCheck = bookmarks\<close>.\<close>

definition latestBookmarks_of_urls ::
    "db \<Rightarrow> int option \<Rightarrow> int option \<Rightarrow> bool \<Rightarrow> string list \<Rightarrow> PageResultsMap" where
  "latestBookmarks_of_urls d startDate' endDate' bookmarks' urls =
     fold (\<lambda>(time, url) m. snd (attemptAdd startDate' endDate' m bookmarks' time url))
       (bookmarks_where_url_anyOf d urls) []"

text \<open>
  One query per page, each ending as soon as its own \<^verbatim>\<open>doneFlags[i]\<close> is set. Under
  \<^verbatim>\<open>Promise.all\<close> the queries interleave on one thread; each only meets keys of its own
  page. They are run here one after the other, which fixes the entries of \<open>latestVisits\<close>
  but not the order in which the code inserts them: the order of the list is that of this
  schedule, and nothing below depends on it.
\<close>

definition visits_query_of_url ::
    "db \<Rightarrow> int option \<Rightarrow> int option \<Rightarrow> string \<Rightarrow> PageResultsMap \<Rightarrow> PageResultsMap" where
  "visits_query_of_url d startDate' endDate' currUrl latestVisits =
     snd (each_until fst
            (\<lambda>(time, url) (done, m). attemptAdd startDate' endDate' m False time url)
            (visits_where_url_equals_reverse d currUrl) (False, latestVisits))"

definition latestVisits_of_urls ::
    "db \<Rightarrow> int option \<Rightarrow> int option \<Rightarrow> string list \<Rightarrow> PageResultsMap" where
  "latestVisits_of_urls d startDate' endDate' urlsToCheck =
     fold (visits_query_of_url d startDate' endDate') urlsToCheck []"

definition mapUrlsToLatestEvents :: "db \<Rightarrow> SearchParams \<Rightarrow> string list \<Rightarrow> PageResultsMap" where
  "mapUrlsToLatestEvents d params urls =
     (let latestBookmarks =
            latestBookmarks_of_urls d (startDate params) (endDate params) (bookmarks params) urls;
          urlsToCheck = (if bookmarks params then map fst latestBookmarks else urls);
          latestVisits = latestVisits_of_urls d (startDate params) (endDate params) urlsToCheck;
          merge = (\<lambda>time url m. snd (attemptAdd (startDate params) (endDate params) m False time url));
          latestEvents = Map_forEach merge latestBookmarks (Map_forEach merge latestVisits [])
      in latestEvents)"

section \<open>\<^verbatim>\<open>lookbackFromEndDate\<close>\<close>

definition default_to :: "'a \<Rightarrow> 'a option \<Rightarrow> 'a" where
  "default_to d v = (case v of None \<Rightarrow> d | Some x \<Rightarrow> x)"

definition lookback_latestVisits ::
    "Storage \<Rightarrow> db \<Rightarrow> int \<Rightarrow> int \<Rightarrow> int \<Rightarrow> int \<Rightarrow> FilteredURLs \<Rightarrow> PageResultsMap" where
  "lookback_latestVisits st d startDate' endDate' skip' limit' filteredUrls =
     each_until (\<lambda>latestVisits. Map_size latestVisits \<ge> skip' + limit')
       (\<lambda>(time, url) latestVisits.
          if \<not> Map_has latestVisits url \<and> isAllowed filteredUrls url
          then Map_set url time latestVisits else latestVisits)
       (visits_where_time_url_between_reverse d (startDate', MIN_STR st) (endDate', MAX_STR st))
       []"

definition lookback_latestBookmarks ::
    "db \<Rightarrow> int \<Rightarrow> int \<Rightarrow> int \<Rightarrow> int \<Rightarrow> PageResultsMap" where
  "lookback_latestBookmarks d startDate' endDate' skip' limit' =
     each_until (\<lambda>latestBookmarks. Map_size latestBookmarks \<ge> skip' + limit')
       (\<lambda>(time, url) latestBookmarks. Map_set url time latestBookmarks)
       (bookmarks_where_time_between_reverse d startDate' (Finite endDate'))
       []"

definition addToMap :: "int \<Rightarrow> string \<Rightarrow> PageResultsMap \<Rightarrow> PageResultsMap" where
  "addToMap time url results =
     (let existing = (case Map_get results url of None \<Rightarrow> 0 | Some t \<Rightarrow> t) in
      if existing < time then Map_set url time results else results)"

text \<open>\<open>now\<close> is the value of \<^verbatim>\<open>Date.now()\<close> at the call.\<close>

definition lookbackFromEndDate ::
    "Storage \<Rightarrow> int \<Rightarrow> db \<Rightarrow> SearchParams \<Rightarrow> FilteredURLs \<Rightarrow> PageResultsMap" where
  "lookbackFromEndDate st now d params filteredUrls =
     (let startDate' = default_to 0 (startDate params);
          endDate' = default_to now (endDate params);
          skip' = default_to 0 (skip params);
          limit' = default_to 10 (limit params);
          latestVisits = lookback_latestVisits st d startDate' endDate' skip' limit' filteredUrls;
          latestBookmarks = lookback_latestBookmarks d startDate' endDate' skip' limit'
      in Map_forEach addToMap latestBookmarks (Map_forEach addToMap latestVisits []))"

section \<open>\<^verbatim>\<open>lookbackBookmarksTime\<close>\<close>

record lookback_state =
  bmsExhausted :: bool
  results :: PageResultsMap
  upperBound :: number

text \<open>Grab the latest page of bookmarks at or below \<open>upperBound\<close>.\<close>

definition grab_bms :: "db \<Rightarrow> int \<Rightarrow> number \<Rightarrow> int \<Rightarrow> int \<Rightarrow> PageResultsMap" where
  "grab_bms d startDate' upperBound' skip' limit' =
     each_until (\<lambda>bms. Map_size bms \<ge> skip' + limit')
       (\<lambda>(time, url) bms. Map_set url time bms)
       (bookmarks_where_time_between_reverse d startDate' upperBound')
       []"

text \<open>
  The query run for one entry bookmarked after \<open>endDate'\<close>: walk the page's visits, latest
  first, until one at or before \<open>endDate'\<close> has been stored in \<open>bms\<close>.
\<close>

definition replace_with_visit :: "db \<Rightarrow> int \<Rightarrow> string \<Rightarrow> PageResultsMap \<Rightarrow> PageResultsMap" where
  "replace_with_visit d endDate' currentUrl bms =
     snd (each_until fst
            (\<lambda>(visitTime, url) (done, m).
               if visitTime \<le> endDate' then (True, Map_set currentUrl visitTime m) else (done, m))
            (visits_where_url_equals_reverse d currentUrl) (False, bms))"

text \<open>
  \<^verbatim>\<open>for (const [currentUrl, currentTime] of bms)\<close>: the body only ever overwrites the
  value of the entry it is at, so the loop sees every entry once, with the time it had.
\<close>

definition replace_late_bms :: "db \<Rightarrow> int \<Rightarrow> PageResultsMap \<Rightarrow> PageResultsMap" where
  "replace_late_bms d endDate' bms =
     fold (\<lambda>(currentUrl, currentTime) m.
             if currentTime > endDate' then replace_with_visit d endDate' currentUrl m else m)
       bms bms"

definition lookback_body ::
    "db \<Rightarrow> int \<Rightarrow> int \<Rightarrow> int \<Rightarrow> int \<Rightarrow> lookback_state \<Rightarrow> lookback_state" where
  "lookback_body d startDate' endDate' skip' limit' s =
     (let bms = grab_bms d startDate' (upperBound s) skip' limit';
          exhausted = (if Map_size bms < skip' + limit' then True else bmsExhausted s);
          bms' = replace_late_bms d endDate' bms;
          results' = Map_new (results s @
                       filter (\<lambda>(url, time). time \<ge> startDate' \<and> time \<le> endDate') bms')
      in \<lparr>bmsExhausted = exhausted, results = results',
          upperBound = number_minus_1 (Math_min (map snd results'))\<rparr>)"

definition lookback_continues :: "int \<Rightarrow> lookback_state \<Rightarrow> bool" where
  "lookback_continues limit' s = (Map_size (results s) < limit' \<and> \<not> bmsExhausted s)"

text \<open>
  The \<^verbatim>\<open>while\<close> loop, with a bound on the number of iterations it may run: \<open>None\<close> when
  the loop would enter one more iteration than \<open>fuel\<close> allows.
\<close>

fun lookback_loop ::
    "nat \<Rightarrow> db \<Rightarrow> int \<Rightarrow> int \<Rightarrow> int \<Rightarrow> int \<Rightarrow> lookback_state \<Rightarrow> PageResultsMap option" where
  "lookback_loop 0 d startDate' endDate' skip' limit' s =
     (if lookback_continues limit' s then None else Some (results s))"
| "lookback_loop (Suc fuel) d startDate' endDate' skip' limit' s =
     (if lookback_continues limit' s
      then lookback_loop fuel d startDate' endDate' skip' limit'
             (lookback_body d startDate' endDate' skip' limit' s)
      else Some (results s))"

definition lookbackBookmarksTime ::
    "nat \<Rightarrow> int \<Rightarrow> db \<Rightarrow> SearchParams \<Rightarrow> PageResultsMap option" where
  "lookbackBookmarksTime fuel now d params =
     lookback_loop fuel d
       (default_to 0 (startDate params)) (default_to now (endDate params))
       (default_to 0 (skip params)) (default_to 10 (limit params))
       \<lparr>bmsExhausted = False, results = [], upperBound = Finite now\<rparr>"

section \<open>\<^verbatim>\<open>groupLatestEventsByUrl\<close>\<close>

definition groupLatestEventsByUrl ::
    "nat \<Rightarrow> Storage \<Rightarrow> int \<Rightarrow> db \<Rightarrow> SearchParams \<Rightarrow> FilteredURLs \<Rightarrow> PageResultsMap option" where
  "groupLatestEventsByUrl fuel st now d params filteredUrls =
     (if bookmarks params
      then lookbackBookmarksTime fuel now d params
      else Some (lookbackFromEndDate st now d params filteredUrls))"

section \<open>The admission rule as the specification words it\<close>

text \<open>
  The specification's sentence on the admission rule, for a window with both bounds given:
  the entry is written when no entry of the page holds a greater or equal time, and the
  window check is skipped or the time lies in the window.
\<close>

definition attemptAdd_spec_admits ::
    "int \<Rightarrow> int \<Rightarrow> PageResultsMap \<Rightarrow> bool \<Rightarrow> int \<Rightarrow> string \<Rightarrow> bool" where
  "attemptAdd_spec_admits startDate' endDate' urlTimeMap skipWindowCheck time pageId =
     ((case Map_get urlTimeMap pageId of None \<Rightarrow> True | Some t \<Rightarrow> \<not> t \<ge> time) \<and>
      (skipWindowCheck \<or> (startDate' \<le> time \<and> time \<le> endDate')))"

section \<open>Facts about the map operations\<close>

lemma map_of_Map_set: "map_of (Map_set k v m) = (map_of m)(k \<mapsto> v)"
  by (induction m) (auto simp: fun_eq_iff)

lemma Map_get_Map_set: "Map_get (Map_set k v m) k' = (if k' = k then Some v else Map_get m k')"
  by (simp add: Map_get_def map_of_Map_set)

lemma set_Map_set: "set (Map_set k v m) \<subseteq> insert (k, v) (set m)"
  by (induction m) (auto split: if_splits)

lemma keys_Map_set: "fst ` set (Map_set k v m) = insert k (fst ` set m)"
  by (simp add: dom_map_of_conv_image_fst [symmetric] map_of_Map_set)

lemma distinct_Map_set: "distinct (map fst m) \<Longrightarrow> distinct (map fst (Map_set k v m))"
  by (induction m) (auto simp: keys_Map_set)

lemma length_Map_set: "length (Map_set k v m) \<le> Suc (length m)"
  by (induction m) auto

lemma card_keys_le_length: "card (fst ` set m) \<le> length m"
  by (metis card_image_le card_length le_trans List.finite_set)

lemma map_of_fold_Map_set:
  "map_of (fold (\<lambda>(k, v). Map_set k v) es m) k =
     (case map_of (rev es) k of Some v \<Rightarrow> Some v | None \<Rightarrow> map_of m k)"
proof (induction es arbitrary: m)
  case Nil
  then show ?case by simp
next
  case (Cons p es)
  obtain k0 v0 where p: "p = (k0, v0)" by (cases p)
  show ?case
    by (simp add: p Cons.IH map_of_Map_set map_of_append map_add_def split: option.splits)
qed

lemma Map_get_Map_new: "Map_get (Map_new es) k = map_of (rev es) k"
  by (simp add: Map_get_def Map_new_def map_of_fold_Map_set split: option.splits)

lemma Map_new_distinct: "distinct (map fst (Map_new es))"
proof -
  have "distinct (map fst m) \<Longrightarrow> distinct (map fst (fold (\<lambda>(k, v). Map_set k v) es m))" for m
    by (induction es arbitrary: m) (auto simp: distinct_Map_set)
  then show ?thesis by (simp add: Map_new_def)
qed

lemma Map_new_entry: "(k, v) \<in> set (Map_new es) \<Longrightarrow> map_of (rev es) k = Some v"
  using Map_new_distinct [of es] Map_get_Map_new [of es k]
  by (simp add: Map_get_def)

section \<open>Facts about the collection scans\<close>

lemma each_until_invariant:
  assumes "P s" and "\<And>x s. x \<in> set xs \<Longrightarrow> P s \<Longrightarrow> \<not> stop s \<Longrightarrow> P (cb x s)"
  shows "P (each_until stop cb xs s)"
  using assms by (induction xs arbitrary: s) auto

lemma each_until_stopped: "stop s \<Longrightarrow> each_until stop cb xs s = s"
  by (cases xs) auto

section \<open>The admission rule\<close>

text \<open>
  C3, as the specification states it, fails on a tie: with \<open>a \<mapsto> 100\<close> recorded, a call
  for time 100 inside the window \<open>[0, 200]\<close> is admitted by the code (it returns true),
  while the specification's condition, which excludes an equal recorded time, is false.
\<close>

theorem attemptAdd_tie_counterexample:
  "\<not> (fst (attemptAdd (Some 0) (Some 200) [(''a'', 100)] False 100 ''a'')
        = attemptAdd_spec_admits 0 200 [(''a'', 100)] False 100 ''a'')"
  by (simp add: attemptAdd_def attemptAdd_spec_admits_def Map_get_def)

text \<open>
  C3, amended: \<open>attemptAdd\<close> writes \<open>time\<close> under the page exactly when the time recorded
  for the page (0 when the page has no entry) is not strictly greater than \<open>time\<close>, and
  the window check is skipped or \<open>time\<close> respects every bound of the window that is
  given; it returns whether it wrote, and leaves the map as it was when it did not.
\<close>

theorem attemptAdd_admission:
  "fst (attemptAdd startDate' endDate' urlTimeMap skipDateCheck time url) =
     ((case Map_get urlTimeMap url of None \<Rightarrow> 0 | Some t \<Rightarrow> t) \<le> time \<and>
      (skipDateCheck \<or>
        ((case endDate' of None \<Rightarrow> True | Some e \<Rightarrow> time \<le> e) \<and>
         (case startDate' of None \<Rightarrow> True | Some s \<Rightarrow> s \<le> time))))
   \<and> snd (attemptAdd startDate' endDate' urlTimeMap skipDateCheck time url) =
     (if fst (attemptAdd startDate' endDate' urlTimeMap skipDateCheck time url)
      then Map_set url time urlTimeMap else urlTimeMap)
   \<and> Map_get (Map_set url time urlTimeMap) url = Some time"
  by (auto simp: attemptAdd_def Let_def Map_get_Map_set split: option.splits)

lemma attemptAdd_monotone_step:
  assumes "Map_get m k = Some t"
  shows "\<exists>t'. Map_get (snd (attemptAdd sd ed m skp time url)) k = Some t' \<and> t \<le> t'"
  using assms by (auto simp: attemptAdd_def Let_def Map_get_Map_set)

text \<open>
  C9: whatever the map holds and whatever calls of \<open>attemptAdd\<close> follow for one page, with
  or without the window check, a time recorded for the page is never replaced by a
  smaller one.
\<close>

theorem attemptAdd_never_decreases:
  "Map_get m url = Some t \<Longrightarrow>
   \<exists>t'. Map_get
          (fold (\<lambda>(skipDateCheck, time) m.
                   snd (attemptAdd startDate' endDate' m skipDateCheck time url)) calls m) url
          = Some t' \<and> t \<le> t'"
proof (induction calls arbitrary: m t)
  case Nil
  then show ?case by simp
next
  case (Cons c calls)
  obtain skp time where c: "c = (skp, time)" by (cases c)
  from attemptAdd_monotone_step [OF Cons.prems, of startDate' endDate' skp time url]
  obtain t1 where t1:
    "Map_get (snd (attemptAdd startDate' endDate' m skp time url)) url = Some t1" "t \<le> t1"
    by blast
  from Cons.IH [OF t1(1)] t1(2) show ?case
    by (auto simp: c intro: order_trans)
qed

theorem attemptAdd_never_decreases_witness:
  "Map_get [(''a'', 100)] ''a'' = Some 100 \<and>
   (\<exists>t'. Map_get
           (fold (\<lambda>(skipDateCheck, time) m.
                    snd (attemptAdd (Some 0) (Some 200) m skipDateCheck time ''a''))
              [(False, 50), (True, 300), (False, 120)] [(''a'', 100)]) ''a''
          = Some t' \<and> 100 \<le> t')"
proof -
  have h: "Map_get [(''a'', 100)] ''a'' = Some 100"
    by (simp add: Map_get_def)
  from attemptAdd_never_decreases [OF h, of "Some 0" "Some 200"
      "[(False, 50), (True, 300), (False, 120)]"] h
  show ?thesis by simp
qed

section \<open>Resolving known pages\<close>

text \<open>
  C7 (scenario A): visits of \<open>a\<close> at 100 and 50 and of \<open>b\<close> at 200, no bookmarks, window
  \<open>[0, 150]\<close>, all events, pages \<open>a\<close> and \<open>b\<close>: the result is exactly \<open>a \<mapsto> 100\<close>.
\<close>

theorem scenario_A:
  "mapUrlsToLatestEvents
     \<lparr>visits = [(100, ''a''), (50, ''a''), (200, ''b'')], bookmarks = []\<rparr>
     \<lparr>startDate = Some 0, endDate = Some 150, skip = None, limit = None, bookmarks = False\<rparr>
     [''a'', ''b'']
   = [(''a'', 100)]"
  by (simp add: mapUrlsToLatestEvents_def latestBookmarks_of_urls_def latestVisits_of_urls_def
      visits_query_of_url_def visits_where_url_equals_reverse_def bookmarks_where_url_anyOf_def
      Map_forEach_def attemptAdd_def Map_get_def)

lemma attemptAdd_checked_in_window:
  assumes "\<forall>(u, t) \<in> set m. s \<le> t \<and> t \<le> e"
  shows "\<forall>(u, t) \<in> set (snd (attemptAdd (Some s) (Some e) m False time url)). s \<le> t \<and> t \<le> e"
  using assms set_Map_set [of url time m]
  by (auto simp: attemptAdd_def Let_def)

lemma merge_in_window:
  assumes "\<forall>(u, t) \<in> set m. s \<le> t \<and> t \<le> e"
  shows "\<forall>(u, t) \<in> set (Map_forEach (\<lambda>time url m. snd (attemptAdd (Some s) (Some e) m False time url)) src m).
           s \<le> t \<and> t \<le> e"
  unfolding Map_forEach_def using assms
proof (induction src arbitrary: m)
  case Nil
  then show ?case by simp
next
  case (Cons p src)
  obtain k v where p: "p = (k, v)" by (cases p)
  show ?case
    using Cons.IH [OF attemptAdd_checked_in_window [OF Cons.prems, of v k]]
    by (simp add: p)
qed

text \<open>
  C10: when both bounds of the window are given, every time in the mapping returned by
  \<open>mapUrlsToLatestEvents\<close> lies in the window, with the \<open>bookmarks\<close> flag set or not: the
  merge admits every entry with the window check on, whatever the bookmark phase let in.
\<close>

theorem resolve_values_in_window:
  assumes "startDate params = Some s" and "endDate params = Some e"
    and "(url, t) \<in> set (mapUrlsToLatestEvents d params urls)"
  shows "s \<le> t \<and> t \<le> e"
proof -
  have "\<forall>(u, t) \<in> set ([] :: PageResultsMap). s \<le> t \<and> t \<le> e" by simp
  from merge_in_window [OF merge_in_window [OF this]] assms(3)
  show ?thesis
    unfolding mapUrlsToLatestEvents_def Let_def assms(1,2) by blast
qed

theorem resolve_values_in_window_witness:
  "latestBookmarks_of_urls \<lparr>visits = [(90, ''x'')], bookmarks = [(300, ''x'')]\<rparr>
      (Some 0) (Some 200) True [''x''] = [(''x'', 300)] \<and>
   (''x'', 90) \<in> set (mapUrlsToLatestEvents \<lparr>visits = [(90, ''x'')], bookmarks = [(300, ''x'')]\<rparr>
      \<lparr>startDate = Some 0, endDate = Some 200, skip = None, limit = None, bookmarks = True\<rparr>
      [''x'']) \<and>
   (0::int) \<le> 90 \<and> (90::int) \<le> 200"
proof -
  have m: "(''x'', 90) \<in> set (mapUrlsToLatestEvents \<lparr>visits = [(90, ''x'')], bookmarks = [(300, ''x'')]\<rparr>
      \<lparr>startDate = Some 0, endDate = Some 200, skip = None, limit = None, bookmarks = True\<rparr>
      [''x''])"
    by (simp add: mapUrlsToLatestEvents_def latestBookmarks_of_urls_def latestVisits_of_urls_def
      visits_query_of_url_def visits_where_url_equals_reverse_def bookmarks_where_url_anyOf_def
      Map_forEach_def attemptAdd_def Map_get_def)
  have b: "latestBookmarks_of_urls \<lparr>visits = [(90, ''x'')], bookmarks = [(300, ''x'')]\<rparr>
      (Some 0) (Some 200) True [''x''] = [(''x'', 300)]"
    by (simp add: latestBookmarks_of_urls_def bookmarks_where_url_anyOf_def attemptAdd_def Map_get_def)
  from resolve_values_in_window [OF _ _ m, of 0 200] b m show ?thesis by simp
qed

section \<open>Looking back from the end date\<close>

lemma lookback_latestVisits_size:
  assumes "0 \<le> skip' + limit'"
  shows "Map_size (lookback_latestVisits st d sd ed skip' limit' f) \<le> skip' + limit'"
  unfolding lookback_latestVisits_def
proof (rule each_until_invariant)
  show "Map_size [] \<le> skip' + limit'" using assms by (simp add: Map_size_def)
next
  fix x :: "int \<times> string" and s :: PageResultsMap
  assume "\<not> skip' + limit' \<le> Map_size s"
  then show "Map_size ((case x of (time, url) \<Rightarrow> \<lambda>latestVisits.
      if \<not> Map_has latestVisits url \<and> isAllowed f url
      then Map_set url time latestVisits else latestVisits) s) \<le> skip' + limit'"
    using length_Map_set [of "snd x" "fst x" s]
    by (cases x) (auto simp: Map_size_def)
qed

lemma lookback_latestBookmarks_size:
  assumes "0 \<le> skip' + limit'"
  shows "Map_size (lookback_latestBookmarks d sd ed skip' limit') \<le> skip' + limit'"
  unfolding lookback_latestBookmarks_def
proof (rule each_until_invariant)
  show "Map_size [] \<le> skip' + limit'" using assms by (simp add: Map_size_def)
next
  fix x :: "int \<times> string" and s :: PageResultsMap
  assume "\<not> skip' + limit' \<le> Map_size s"
  then show "Map_size ((case x of (time, url) \<Rightarrow> \<lambda>latestBookmarks.
      Map_set url time latestBookmarks) s) \<le> skip' + limit'"
    using length_Map_set [of "snd x" "fst x" s]
    by (cases x) (auto simp: Map_size_def)
qed

text \<open>
  C8: in \<open>lookbackFromEndDate\<close>, the visits scan and the bookmarks scan each collect at
  most \<open>skip + limit\<close> distinct pages (for a page size that is not negative).
\<close>

theorem lookback_sources_bounded:
  assumes "0 \<le> skip' + limit'"
  shows "int (card (fst ` set (lookback_latestVisits st d sd ed skip' limit' f))) \<le> skip' + limit'
       \<and> int (card (fst ` set (lookback_latestBookmarks d sd ed skip' limit'))) \<le> skip' + limit'"
  using lookback_latestVisits_size [OF assms, of st d sd ed f]
    lookback_latestBookmarks_size [OF assms, of d sd ed]
    card_keys_le_length [of "lookback_latestVisits st d sd ed skip' limit' f"]
    card_keys_le_length [of "lookback_latestBookmarks d sd ed skip' limit'"]
  by (simp add: Map_size_def)

theorem lookback_sources_bounded_witness:
  "(0::int) \<le> 0 + 2 \<and>
   int (card (fst ` set (lookback_latestVisits \<lparr>MIN_STR = '''', MAX_STR = ''~''\<rparr>
       \<lparr>visits = [(10, ''a''), (20, ''b''), (30, ''c'')], bookmarks = [(15, ''d''), (25, ''e''), (35, ''f'')]\<rparr>
       0 100 0 2 \<lparr>isAllowed = (\<lambda>url. True)\<rparr>))) \<le> 0 + 2 \<and>
   int (card (fst ` set (lookback_latestBookmarks
       \<lparr>visits = [(10, ''a''), (20, ''b''), (30, ''c'')], bookmarks = [(15, ''d''), (25, ''e''), (35, ''f'')]\<rparr>
       0 100 0 2))) \<le> 0 + 2"
proof -
  have h: "(0::int) \<le> 0 + 2" by simp
  from lookback_sources_bounded [OF h] h show ?thesis by blast
qed

lemma lookback_latestVisits_allowed:
  "\<forall>url \<in> fst ` set (lookback_latestVisits st d sd ed skip' limit' f). isAllowed f url"
  unfolding lookback_latestVisits_def
proof (rule each_until_invariant)
  show "\<forall>url \<in> fst ` set ([] :: PageResultsMap). isAllowed f url" by simp
next
  fix x :: "int \<times> string" and s :: PageResultsMap
  assume "\<forall>url \<in> fst ` set s. isAllowed f url"
  then show "\<forall>url \<in> fst ` set ((case x of (time, url) \<Rightarrow> \<lambda>latestVisits.
      if \<not> Map_has latestVisits url \<and> isAllowed f url
      then Map_set url time latestVisits else latestVisits) s). isAllowed f url"
    by (cases x) (auto dest!: subsetD [OF set_Map_set])
qed

text \<open>
  C2 fails on the code. The visits scan asks \<open>isAllowed\<close> before it records a page, the
  bookmarks scan records every page it meets: with a visit and a bookmark of a page the
  allow list excludes, the visit is dropped and the bookmark is returned.
\<close>

theorem lookbackFromEndDate_bookmark_not_filtered:
  "\<not> isAllowed \<lparr>isAllowed = (\<lambda>url. url \<noteq> ''blocked'')\<rparr> ''blocked'' \<and>
   lookbackFromEndDate \<lparr>MIN_STR = '''', MAX_STR = ''~''\<rparr> 1000
     \<lparr>visits = [(90, ''blocked''), (80, ''ok'')], bookmarks = [(100, ''blocked'')]\<rparr>
     \<lparr>startDate = Some 0, endDate = Some 500, skip = Some 0, limit = Some 10, bookmarks = False\<rparr>
     \<lparr>isAllowed = (\<lambda>url. url \<noteq> ''blocked'')\<rparr>
   = [(''ok'', 80), (''blocked'', 100)]"
  by (simp add: lookbackFromEndDate_def lookback_latestVisits_def lookback_latestBookmarks_def
      visits_where_time_url_between_reverse_def bookmarks_where_time_between_reverse_def
      Map_size_def Map_has_def Map_get_def Map_forEach_def addToMap_def default_to_def)

section \<open>The dispatcher\<close>

text \<open>
  C5, as the specification states it, fails: with \<open>limit = 0\<close> and \<open>skip = 2\<close> the call is
  not rejected; it scans both tables and returns what it found.
\<close>

theorem groupLatestEventsByUrl_zero_limit_counterexample:
  "groupLatestEventsByUrl 0 \<lparr>MIN_STR = '''', MAX_STR = ''~''\<rparr> 1000
     \<lparr>visits = [(90, ''x''), (250, ''y'')], bookmarks = [(100, ''z'')]\<rparr>
     \<lparr>startDate = Some 0, endDate = Some 500, skip = Some 2, limit = Some 0, bookmarks = False\<rparr>
     \<lparr>isAllowed = (\<lambda>url. True)\<rparr>
   = Some [(''y'', 250), (''x'', 90), (''z'', 100)]"
  by (simp add: groupLatestEventsByUrl_def lookbackFromEndDate_def lookback_latestVisits_def lookback_latestBookmarks_def
      visits_where_time_url_between_reverse_def bookmarks_where_time_between_reverse_def
      Map_size_def Map_has_def Map_get_def Map_forEach_def addToMap_def default_to_def)

lemma lookback_loop_not_entered:
  "\<not> lookback_continues limit' s \<Longrightarrow> lookback_loop fuel d sd ed sk limit' s = Some (results s)"
  by (cases fuel) auto

text \<open>
  C5, amended: a query whose limit is not positive is never rejected. In bookmarks mode it
  returns the empty mapping without entering the lookback loop, whatever the store holds;
  otherwise it returns the result of the end-date lookback, whose scans stop at
  \<open>skip + limit\<close> pages, so that the mapping is empty when \<open>skip + limit\<close> is not positive.
\<close>

theorem groupLatestEventsByUrl_nonpositive_limit:
  assumes "limit params = Some l" and "l \<le> 0"
  shows "groupLatestEventsByUrl fuel st now d params filteredUrls =
           Some (if bookmarks params \<or> default_to 0 (skip params) + l \<le> 0 then []
                 else lookbackFromEndDate st now d params filteredUrls)"
proof (cases "bookmarks params")
  case True
  have "\<not> lookback_continues l \<lparr>bmsExhausted = False, results = [], upperBound = Finite now\<rparr>"
    using assms(2) by (simp add: lookback_continues_def Map_size_def)
  then show ?thesis
    using True assms(1)
    by (simp add: groupLatestEventsByUrl_def lookbackBookmarksTime_def default_to_def
        lookback_loop_not_entered)
next
  case False
  show ?thesis
  proof (cases "default_to 0 (skip params) + l \<le> 0")
    case True
    then have "lookbackFromEndDate st now d params filteredUrls = []"
      using assms(1)
      by (simp add: lookbackFromEndDate_def lookback_latestVisits_def lookback_latestBookmarks_def
          each_until_stopped Map_size_def Map_forEach_def default_to_def)
    then show ?thesis using False True by (simp add: groupLatestEventsByUrl_def)
  next
    case nonpos: False
    then show ?thesis using False by (simp add: groupLatestEventsByUrl_def)
  qed
qed

theorem groupLatestEventsByUrl_nonpositive_limit_witness:
  "limit \<lparr>startDate = Some 0, endDate = Some 500, skip = Some 0, limit = Some 0, bookmarks = True\<rparr> = Some 0 \<and>
   (0::int) \<le> 0 \<and>
   groupLatestEventsByUrl 0 \<lparr>MIN_STR = '''', MAX_STR = ''~''\<rparr> 1000
     \<lparr>visits = [(90, ''x''), (250, ''y'')], bookmarks = [(100, ''z'')]\<rparr>
     \<lparr>startDate = Some 0, endDate = Some 500, skip = Some 0, limit = Some 0, bookmarks = True\<rparr>
     \<lparr>isAllowed = (\<lambda>url. True)\<rparr> = Some []"
  using groupLatestEventsByUrl_nonpositive_limit [of
     "\<lparr>startDate = Some 0, endDate = Some 500, skip = Some 0, limit = Some 0, bookmarks = True\<rparr>"
     0 0 "\<lparr>MIN_STR = '''', MAX_STR = ''~''\<rparr>" 1000
     "\<lparr>visits = [(90, ''x''), (250, ''y'')], bookmarks = [(100, ''z'')]\<rparr>"
     "\<lparr>isAllowed = (\<lambda>url. True)\<rparr>"]
  by simp

section \<open>Looking back through the bookmarks\<close>

subsection \<open>Replacing bookmarks made after the end date\<close>

text \<open>
  The query for one page walks the page's visits from the latest down, so the first visit
  at or before the end date that it meets is the latest such visit.
\<close>

lemma replace_scan:
  "each_until fst
     (\<lambda>(visitTime, url) (done, m).
        if visitTime \<le> e then (True, Map_set k visitTime m) else (done, m))
     xs (False, m)
   = (case find (\<lambda>(vt, u). vt \<le> e) xs of
        None \<Rightarrow> (False, m) | Some (vt, u) \<Rightarrow> (True, Map_set k vt m))"
  by (induction xs) (auto simp: each_until_stopped)

lemma replace_with_visit_find:
  "replace_with_visit d e k m =
     (case find (\<lambda>(vt, u). vt \<le> e) (visits_where_url_equals_reverse d k) of
        None \<Rightarrow> m | Some (vt, u) \<Rightarrow> Map_set k vt m)"
  by (simp add: replace_with_visit_def replace_scan split: option.splits)

lemma find_latest_first:
  assumes "sorted_wrt (\<lambda>a b. fst b \<le> fst a) xs"
  shows "map_option fst (find (\<lambda>(vt, u). vt \<le> e) xs) =
           (if \<exists>x \<in> set xs. fst x \<le> e then Some (Max {t \<in> fst ` set xs. t \<le> (e::int)}) else None)"
  using assms
proof (induction xs)
  case Nil
  then show ?case by simp
next
  case (Cons a xs)
  show ?case
  proof (cases "fst a \<le> e")
    case True
    have "Max {t \<in> fst ` set (a # xs). t \<le> e} = fst a"
    proof (rule Max_eqI)
      show "finite {t \<in> fst ` set (a # xs). t \<le> e}" by simp
      show "fst a \<in> {t \<in> fst ` set (a # xs). t \<le> e}" using True by simp
      fix y assume "y \<in> {t \<in> fst ` set (a # xs). t \<le> e}"
      then show "y \<le> fst a" using Cons.prems by auto
    qed
    with True show ?thesis by (cases a) auto
  next
    case False
    then have "{t \<in> fst ` set (a # xs). t \<le> e} = {t \<in> fst ` set xs. t \<le> e}"
      by auto
    with False Cons show ?thesis by (cases a) auto
  qed
qed

lemma visits_of_url_descending:
  "sorted_wrt (\<lambda>a b. fst b \<le> fst a) (visits_where_url_equals_reverse d k)"
proof -
  have "sorted_wrt (\<lambda>a b. a \<le> b) (sort (filter (\<lambda>(time, url). url = k) (visits d)))"
    by simp
  then have "sorted_wrt (\<lambda>a b. fst a \<le> fst b) (sort (filter (\<lambda>(time, url). url = k) (visits d)))"
    by (rule sorted_wrt_mono_rel [rotated]) (auto simp: less_eq_prod_def)
  then show ?thesis
    by (simp add: visits_where_url_equals_reverse_def sorted_wrt_rev)
qed

lemma set_visits_of_url:
  "set (visits_where_url_equals_reverse d k) = {(t, u). (t, u) \<in> set (visits d) \<and> u = k}"
  by (auto simp: visits_where_url_equals_reverse_def)

lemma replace_with_visit_latest:
  "replace_with_visit d e k m =
     (let earlier = filter (\<lambda>t. t \<le> e) (map fst (filter (\<lambda>(t, u). u = k) (visits d)))
      in if earlier = [] then m else Map_set k (Max (set earlier)) m)"
proof -
  let ?L = "visits_where_url_equals_reverse d k"
  let ?earlier = "filter (\<lambda>t. t \<le> e) (map fst (filter (\<lambda>(t, u). u = k) (visits d)))"
  have S: "set ?earlier = {t \<in> fst ` set ?L. t \<le> e}"
    by (auto simp: set_visits_of_url image_iff)
  have E: "(?earlier = []) = (\<not> (\<exists>x \<in> set ?L. fst x \<le> e))"
    by (auto simp: set_visits_of_url filter_empty_conv)
  from find_latest_first [OF visits_of_url_descending [of d k], of e]
  have F: "map_option fst (find (\<lambda>(vt, u). vt \<le> e) ?L) =
             (if ?earlier = [] then None else Some (Max (set ?earlier)))"
    by (simp only: S E) simp
  show ?thesis
    using F unfolding replace_with_visit_find Let_def
    by (auto split: option.splits if_splits)
qed

lemma replace_with_visit_get:
  "Map_get (replace_with_visit d e k m) k' =
     (let earlier = filter (\<lambda>t. t \<le> e) (map fst (filter (\<lambda>(t, u). u = k) (visits d)))
      in if k' = k \<and> earlier \<noteq> [] then Some (Max (set earlier)) else Map_get m k')"
  by (simp add: replace_with_visit_latest Let_def Map_get_Map_set)

lemma replace_with_visit_distinct:
  "distinct (map fst m) \<Longrightarrow> distinct (map fst (replace_with_visit d e k m))"
  by (simp add: replace_with_visit_latest Let_def distinct_Map_set)

lemma replace_fold_get:
  assumes "distinct (map fst es)"
  shows "Map_get (fold (\<lambda>(currentUrl, currentTime) m.
             if currentTime > e then replace_with_visit d e currentUrl m else m) es m) k =
         (case map_of es k of
            None \<Rightarrow> Map_get m k
          | Some t \<Rightarrow>
              (let earlier = filter (\<lambda>t. t \<le> e) (map fst (filter (\<lambda>(t, u). u = k) (visits d)))
               in if t > e \<and> earlier \<noteq> [] then Some (Max (set earlier)) else Map_get m k))"
  using assms
proof (induction es arbitrary: m)
  case Nil
  then show ?case by simp
next
  case (Cons p es)
  obtain k0 t0 where p: "p = (k0, t0)" by (cases p)
  from Cons.prems p have d: "distinct (map fst es)" and n: "map_of es k0 = None"
    by (auto simp: map_of_eq_None_iff)
  show ?case
    using n by (auto simp: p Cons.IH [OF d] replace_with_visit_get Let_def split: option.splits)
qed

lemma replace_fold_distinct:
  "distinct (map fst m) \<Longrightarrow>
   distinct (map fst (fold (\<lambda>(currentUrl, currentTime) m.
             if currentTime > e then replace_with_visit d e currentUrl m else m) es m))"
  by (induction es arbitrary: m) (auto simp: replace_with_visit_distinct)

lemma grab_bms_distinct: "distinct (map fst (grab_bms d sd ub sk lim))"
  unfolding grab_bms_def
proof (rule each_until_invariant)
  show "distinct (map fst ([] :: PageResultsMap))" by simp
next
  fix x :: "int \<times> string" and s :: PageResultsMap
  assume "distinct (map fst s)"
  then show "distinct (map fst ((case x of (time, url) \<Rightarrow> \<lambda>bms. Map_set url time bms) s))"
    by (cases x) (simp add: distinct_Map_set)
qed

lemma replace_late_bms_entry:
  assumes "distinct (map fst bms)" and "(pageId, time) \<in> set bms" and "time > e"
  shows "let bms' = replace_late_bms d e bms;
             earlier = filter (\<lambda>t. t \<le> e) (map fst (filter (\<lambda>(t, u). u = pageId) (visits d)))
         in if earlier = []
            then Map_get bms' pageId = Some time \<and>
                 pageId \<notin> fst ` set (filter (\<lambda>(url, t). t \<ge> sd \<and> t \<le> e) bms')
            else Map_get bms' pageId = Some (Max (set earlier))"
proof -
  let ?bms' = "replace_late_bms d e bms"
  let ?earlier = "filter (\<lambda>t. t \<le> e) (map fst (filter (\<lambda>(t, u). u = pageId) (visits d)))"
  have m: "map_of bms pageId = Some time"
    using assms(1,2) by simp
  have g: "Map_get ?bms' pageId = (if ?earlier = [] then Some time else Some (Max (set ?earlier)))"
    unfolding replace_late_bms_def replace_fold_get [OF assms(1)]
    using assms(3) m by (simp add: Let_def Map_get_def)
  have dst: "distinct (map fst ?bms')"
    unfolding replace_late_bms_def by (rule replace_fold_distinct [OF assms(1)])
  have out: "pageId \<notin> fst ` set (filter (\<lambda>(url, t). t \<ge> sd \<and> t \<le> e) ?bms')" if "?earlier = []"
  proof
    assume "pageId \<in> fst ` set (filter (\<lambda>(url, t). t \<ge> sd \<and> t \<le> e) ?bms')"
    then obtain t' where t': "(pageId, t') \<in> set ?bms'" "t' \<le> e" by auto
    from t'(1) dst have "map_of ?bms' pageId = Some t'" by simp
    with g that have "t' = time" by (simp add: Map_get_def)
    with t'(2) assms(3) show False by simp
  qed
  show ?thesis
    using g out by (simp add: Let_def)
qed

lemma scenario_B:
  assumes "300 \<le> now"
  shows "lookbackBookmarksTime (Suc fuel) now
     \<lparr>visits = [(90, ''x''), (250, ''x'')], bookmarks = [(300, ''x'')]\<rparr>
     \<lparr>startDate = Some 0, endDate = Some 200, skip = Some 0, limit = Some 1, bookmarks = True\<rparr>
   = Some [(''x'', 90)]"
proof -
  let ?d = "\<lparr>visits = [(90, ''x''), (250, ''x'')], bookmarks = [(300, ''x'')]\<rparr>"
  let ?s0 = "\<lparr>bmsExhausted = False, results = [], upperBound = Finite now\<rparr>"
  let ?s1 = "\<lparr>bmsExhausted = False, results = [(''x'', 90)], upperBound = Finite 89\<rparr>"
  have b0: "lookback_body ?d 0 200 0 1 ?s0 = ?s1"
    using assms
    by (simp add: lookback_body_def grab_bms_def bookmarks_where_time_between_reverse_def
        replace_late_bms_def replace_with_visit_def visits_where_url_equals_reverse_def
        Map_size_def Map_new_def)
  have c0: "lookback_continues 1 ?s0" and c1: "\<not> lookback_continues 1 ?s1"
    by (simp_all add: lookback_continues_def Map_size_def)
  have "lookback_loop (Suc fuel) ?d 0 200 0 1 ?s0 = Some [(''x'', 90)]"
    by (simp add: c0 b0 lookback_loop_not_entered [OF c1])
  then show ?thesis
    by (simp add: lookbackBookmarksTime_def default_to_def)
qed

subsection \<open>The replacement step inside one iteration\<close>

lemma results_lookback_body:
  "results (lookback_body d sd ed sk lim s) =
     Map_new (results s @
       filter (\<lambda>(url, time). time \<ge> sd \<and> time \<le> ed)
         (replace_late_bms d ed (grab_bms d sd (upperBound s) sk lim)))"
  by (simp add: lookback_body_def Let_def)

lemma replace_late_bms_distinct:
  "distinct (map fst bms) \<Longrightarrow> distinct (map fst (replace_late_bms d e bms))"
  unfolding replace_late_bms_def by (rule replace_fold_distinct)

text \<open>An entry whose page the filter on the window drops adds nothing to the results.\<close>

lemma admit_dropped:
  assumes "k \<notin> fst ` set (filter (\<lambda>(url, time). time \<ge> sd \<and> time \<le> ed) bms')"
    and "(k, t) \<in> set (Map_new (rs @ filter (\<lambda>(url, time). time \<ge> sd \<and> time \<le> ed) bms'))"
  shows "(k, t) \<in> set rs"
proof -
  let ?f = "filter (\<lambda>(url, time). time \<ge> sd \<and> time \<le> ed) bms'"
  from assms(1) have "map_of (rev ?f) k = None"
    by (simp add: map_of_eq_None_iff)
  with Map_new_entry [OF assms(2)] have "map_of (rev rs) k = Some t"
    by (simp add: map_of_append map_add_def)
  then have "(k, t) \<in> set (rev rs)" by (rule map_of_SomeD)
  then show ?thesis by simp
qed

text \<open>An entry that passes the filter on the window is what the results hold for its page.\<close>

lemma admit_kept:
  assumes "distinct (map fst bms')" and "Map_get bms' k = Some t" and "sd \<le> t" and "t \<le> ed"
  shows "Map_get (Map_new (rs @ filter (\<lambda>(url, time). time \<ge> sd \<and> time \<le> ed) bms')) k = Some t"
proof -
  let ?f = "filter (\<lambda>(url, time). time \<ge> sd \<and> time \<le> ed) bms'"
  from assms(2) have "(k, t) \<in> set bms'"
    by (auto simp: Map_get_def dest: map_of_SomeD)
  with assms(3,4) have "(k, t) \<in> set (rev ?f)" by simp
  moreover have "distinct (map fst (rev ?f))"
    using assms(1) by (simp add: rev_map [symmetric] distinct_map_filter)
  ultimately have "map_of (rev ?f) k = Some t" by (rule map_of_is_SomeI [rotated])
  then show ?thesis
    by (simp add: Map_get_Map_new map_of_append map_add_def)
qed

lemma lookback_body_late_entry:
  assumes "(pageId, time) \<in> set (grab_bms d sd (upperBound s) sk lim)" and "time > e"
  shows "let bms' = replace_late_bms d e (grab_bms d sd (upperBound s) sk lim);
             earlier = filter (\<lambda>t. t \<le> e) (map fst (filter (\<lambda>(t, u). u = pageId) (visits d)));
             results' = results (lookback_body d sd e sk lim s)
         in if earlier = []
            then Map_get bms' pageId = Some time \<and>
                 pageId \<notin> fst ` set (filter (\<lambda>(url, t). t \<ge> sd \<and> t \<le> e) bms') \<and>
                 (\<forall>t. (pageId, t) \<in> set results' \<longrightarrow> (pageId, t) \<in> set (results s))
            else Map_get bms' pageId = Some (Max (set earlier)) \<and>
                 (sd \<le> Max (set earlier) \<longrightarrow> Map_get results' pageId = Some (Max (set earlier)))"
proof -
  let ?bms = "grab_bms d sd (upperBound s) sk lim"
  let ?bms' = "replace_late_bms d e ?bms"
  let ?earlier = "filter (\<lambda>t. t \<le> e) (map fst (filter (\<lambda>(t, u). u = pageId) (visits d)))"
  let ?results' = "results (lookback_body d sd e sk lim s)"
  note entry = replace_late_bms_entry [OF grab_bms_distinct assms, of d sd, unfolded Let_def]
  have dst: "distinct (map fst ?bms')"
    by (rule replace_late_bms_distinct [OF grab_bms_distinct])
  show ?thesis
  proof (cases "?earlier = []")
    case True
    with entry have g: "Map_get ?bms' pageId = Some time"
      and out: "pageId \<notin> fst ` set (filter (\<lambda>(url, t). t \<ge> sd \<and> t \<le> e) ?bms')"
      by simp_all
    have "(pageId, t) \<in> set (results s)" if "(pageId, t) \<in> set ?results'" for t
      using that unfolding results_lookback_body by (rule admit_dropped [OF out])
    with g out True show ?thesis by (simp add: Let_def)
  next
    case False
    with entry have g: "Map_get ?bms' pageId = Some (Max (set ?earlier))" by simp
    from False have "set ?earlier \<noteq> {}" by (simp only: set_empty not_False_eq_True)
    then have "Max (set ?earlier) \<in> set ?earlier" by (rule Max_in [OF finite_set])
    then have le: "Max (set ?earlier) \<le> e" by simp
    have "Map_get ?results' pageId = Some (Max (set ?earlier))" if "sd \<le> Max (set ?earlier)"
      unfolding results_lookback_body by (rule admit_kept [OF dst g that le])
    with g False show ?thesis by (simp add: Let_def)
  qed
qed

text \<open>
  C6: take any iteration of the loop and any entry of the page of bookmarks it fetched
  whose time is after \<open>endDate\<close>. When the page has a visit at or before \<open>endDate\<close>, the
  replacement step leaves the latest such visit time under the page, and that time is
  what the results of the iteration hold for the page once it is not before \<open>startDate\<close>.
  When the page has no such visit, the entry keeps its bookmark time, does not pass the
  filter on the window, and adds nothing to the results of the iteration: whatever the
  results hold for the page, they held before. In scenario B (one bookmark of \<open>x\<close> at 300,
  visits of \<open>x\<close> at 90 and 250, window \<open>[0, 200]\<close>, \<open>skip = 0\<close>, \<open>limit = 1\<close>, and a clock that
  has passed the bookmark) the lookback returns exactly \<open>x \<mapsto> 90\<close>.
\<close>

theorem backfill_late_bookmarks:
  "(\<forall>pageId time.
      (pageId, time) \<in> set (grab_bms d startDate' (upperBound s) skip' limit') \<and> time > endDate' \<longrightarrow>
      (let bms' = replace_late_bms d endDate' (grab_bms d startDate' (upperBound s) skip' limit');
           earlier = filter (\<lambda>t. t \<le> endDate')
                       (map fst (filter (\<lambda>(t, u). u = pageId) (visits d)));
           results' = results (lookback_body d startDate' endDate' skip' limit' s)
       in if earlier = []
          then Map_get bms' pageId = Some time \<and>
               pageId \<notin> fst ` set (filter (\<lambda>(url, t). t \<ge> startDate' \<and> t \<le> endDate') bms') \<and>
               (\<forall>t. (pageId, t) \<in> set results' \<longrightarrow> (pageId, t) \<in> set (results s))
          else Map_get bms' pageId = Some (Max (set earlier)) \<and>
               (startDate' \<le> Max (set earlier) \<longrightarrow>
                  Map_get results' pageId = Some (Max (set earlier)))))
   \<and> (300 \<le> now \<longrightarrow>
        lookbackBookmarksTime (Suc fuel) now
          \<lparr>visits = [(90, ''x''), (250, ''x'')], bookmarks = [(300, ''x'')]\<rparr>
          \<lparr>startDate = Some 0, endDate = Some 200, skip = Some 0, limit = Some 1, bookmarks = True\<rparr>
        = Some [(''x'', 90)])"
  using lookback_body_late_entry scenario_B by blast

theorem backfill_late_bookmarks_witness:
  "(''x'', 300) \<in> set (grab_bms \<lparr>visits = [(90, ''x''), (250, ''x'')], bookmarks = [(300, ''x'')]\<rparr>
                        0 (Finite 1000) 0 1) \<and>
   (300::int) > 200 \<and>
   Map_get (replace_late_bms \<lparr>visits = [(90, ''x''), (250, ''x'')], bookmarks = [(300, ''x'')]\<rparr> 200
             (grab_bms \<lparr>visits = [(90, ''x''), (250, ''x'')], bookmarks = [(300, ''x'')]\<rparr>
                0 (Finite 1000) 0 1)) ''x'' = Some 90 \<and>
   Map_get (results (lookback_body
              \<lparr>visits = [(90, ''x''), (250, ''x'')], bookmarks = [(300, ''x'')]\<rparr> 0 200 0 1
              \<lparr>bmsExhausted = False, results = [], upperBound = Finite 1000\<rparr>)) ''x'' = Some 90 \<and>
   (300::int) \<le> 1000 \<and>
   lookbackBookmarksTime (Suc 0) 1000
     \<lparr>visits = [(90, ''x''), (250, ''x'')], bookmarks = [(300, ''x'')]\<rparr>
     \<lparr>startDate = Some 0, endDate = Some 200, skip = Some 0, limit = Some 1, bookmarks = True\<rparr>
   = Some [(''x'', 90)] \<and>
   (''y'', 300) \<in> set (grab_bms \<lparr>visits = [(250, ''y'')], bookmarks = [(300, ''y'')]\<rparr>
                        0 (Finite 1000) 0 1) \<and>
   Map_get (replace_late_bms \<lparr>visits = [(250, ''y'')], bookmarks = [(300, ''y'')]\<rparr> 200
             (grab_bms \<lparr>visits = [(250, ''y'')], bookmarks = [(300, ''y'')]\<rparr>
                0 (Finite 1000) 0 1)) ''y'' = Some 300 \<and>
   ''y'' \<notin> fst ` set (results (lookback_body
              \<lparr>visits = [(250, ''y'')], bookmarks = [(300, ''y'')]\<rparr> 0 200 0 1
              \<lparr>bmsExhausted = False, results = [], upperBound = Finite 1000\<rparr>))"
proof -
  let ?d = "\<lparr>visits = [(90, ''x''), (250, ''x'')], bookmarks = [(300, ''x'')]\<rparr>"
  let ?d2 = "\<lparr>visits = [(250, ''y'')], bookmarks = [(300, ''y'')]\<rparr>"
  let ?s = "\<lparr>bmsExhausted = False, results = [], upperBound = Finite 1000\<rparr>"
  have g: "grab_bms ?d 0 (Finite 1000) 0 1 = [(''x'', 300)]"
    by (simp add: grab_bms_def bookmarks_where_time_between_reverse_def Map_size_def)
  have g2: "grab_bms ?d2 0 (Finite 1000) 0 1 = [(''y'', 300)]"
    by (simp add: grab_bms_def bookmarks_where_time_between_reverse_def Map_size_def)
  note x = backfill_late_bookmarks [of ?d 0 ?s 0 1 200 1000 0, THEN conjunct1, rule_format,
      of "''x''" 300]
  note sc = backfill_late_bookmarks [of ?d 0 ?s 0 1 200 1000 0, THEN conjunct2, rule_format]
  note y = backfill_late_bookmarks [of ?d2 0 ?s 0 1 200 1000 0, THEN conjunct1, rule_format,
      of "''y''" 300]
  have a1: "Map_get (replace_late_bms ?d 200 [(''x'', 300)]) ''x'' = Some 90"
    and a2: "Map_get (results (lookback_body ?d 0 200 0 1 ?s)) ''x'' = Some 90"
    using x by (simp_all add: g Let_def)
  have b1: "Map_get (replace_late_bms ?d2 200 [(''y'', 300)]) ''y'' = Some 300"
    and b2: "\<forall>t. (''y'', t) \<notin> set (results (lookback_body ?d2 0 200 0 1 ?s))"
    using y by (simp_all add: g2 Let_def)
  from b2 have b3: "''y'' \<notin> fst ` set (results (lookback_body ?d2 0 200 0 1 ?s))"
    by fastforce
  from a1 a2 sc b1 b3 show ?thesis by (simp add: g g2)
qed

subsection \<open>The loop\<close>

lemma lookback_loop_stuck:
  assumes "lookback_continues limit' s" and "lookback_body d sd ed sk limit' s = s"
  shows "lookback_loop fuel d sd ed sk limit' s = None"
  using assms by (induction fuel) auto

lemma lookback_loop_stuck_after_one:
  assumes "lookback_continues limit' s"
    and "lookback_continues limit' (lookback_body d sd ed sk limit' s)"
    and "lookback_body d sd ed sk limit' (lookback_body d sd ed sk limit' s) = lookback_body d sd ed sk limit' s"
  shows "lookback_loop fuel d sd ed sk limit' s = None"
  using assms by (cases fuel) (auto simp: lookback_loop_stuck)

text \<open>
  C1 fails on the code. One bookmark at 300, no visit, window \<open>[0, 50]\<close>, \<open>skip = 0\<close>,
  \<open>limit = 1\<close>: the first iteration fetches a full page (one bookmark), admits nothing and
  sets \<open>upperBound\<close> to \<^verbatim>\<open>Math.min() - 1 = Infinity\<close>; every later iteration fetches the
  same page again. The loop exceeds every bound on its iterations.
\<close>

theorem lookbackBookmarksTime_never_returns:
  "lookbackBookmarksTime fuel 1000 \<lparr>visits = [], bookmarks = [(300, ''x'')]\<rparr>
     \<lparr>startDate = Some 0, endDate = Some 50, skip = Some 0, limit = Some 1, bookmarks = True\<rparr>
   = None"
proof -
  let ?d = "\<lparr>visits = [], bookmarks = [(300, ''x'')]\<rparr>"
  let ?s0 = "\<lparr>bmsExhausted = False, results = [], upperBound = Finite 1000\<rparr>"
  let ?s1 = "\<lparr>bmsExhausted = False, results = [], upperBound = Infinity\<rparr>"
  have b0: "lookback_body ?d 0 50 0 1 ?s0 = ?s1"
    by (simp add: lookback_body_def grab_bms_def bookmarks_where_time_between_reverse_def
        replace_late_bms_def replace_with_visit_def visits_where_url_equals_reverse_def
        Map_size_def Map_new_def)
  have b1: "lookback_body ?d 0 50 0 1 ?s1 = ?s1"
    by (simp add: lookback_body_def grab_bms_def bookmarks_where_time_between_reverse_def
        replace_late_bms_def replace_with_visit_def visits_where_url_equals_reverse_def
        Map_size_def Map_new_def)
  have c0: "lookback_continues 1 ?s0" and c1: "lookback_continues 1 ?s1"
    by (simp_all add: lookback_continues_def Map_size_def)
  have "lookback_loop fuel ?d 0 50 0 1 ?s0 = None"
    by (rule lookback_loop_stuck_after_one) (simp_all only: b0 b1 c0 c1)
  then show ?thesis
    by (simp add: lookbackBookmarksTime_def default_to_def)
qed

text \<open>
  After an iteration that leaves results, \<open>upperBound\<close> is finite and below every time in
  the results: the next page of bookmarks starts below all of them.
\<close>

lemma Math_min_below:
  "vs \<noteq> [] \<Longrightarrow> \<exists>n. Math_min vs = Finite n \<and> (\<forall>v \<in> set vs. n \<le> v)"
proof (induction vs)
  case Nil
  then show ?case by simp
next
  case (Cons v vs)
  show ?case
  proof (cases "vs = []")
    case True
    then show ?thesis by simp
  next
    case False
    from Cons.IH [OF this] obtain n where "Math_min vs = Finite n" "\<forall>v \<in> set vs. n \<le> v"
      by blast
    then show ?thesis by auto
  qed
qed

lemma lookback_body_upperBound:
  assumes "results (lookback_body d sd ed sk lim s) \<noteq> []"
  shows "\<exists>n. upperBound (lookback_body d sd ed sk lim s) = Finite n \<and>
             (\<forall>(url, time) \<in> set (results (lookback_body d sd ed sk lim s)). n < time)"
proof -
  let ?r = "results (lookback_body d sd ed sk lim s)"
  have u: "upperBound (lookback_body d sd ed sk lim s) = number_minus_1 (Math_min (map snd ?r))"
    by (simp add: lookback_body_def Let_def)
  from assms have "map snd ?r \<noteq> []" by simp
  from Math_min_below [OF this] obtain n where
    n: "Math_min (map snd ?r) = Finite n" "\<forall>v \<in> set (map snd ?r). n \<le> v"
    by blast
  have "\<forall>(url, time) \<in> set ?r. n - 1 < time"
    using n(2) by fastforce
  then show ?thesis
    unfolding u n(1) by simp
qed

text \<open>
  With no bookmark in the store and a positive page size the loop ends with its first
  iteration, and returns the empty mapping.
\<close>

lemma lookback_body_empty_log:
  assumes "db.bookmarks d = []" and "0 < sk + lim"
  shows "lookback_body d sd ed sk lim \<lparr>bmsExhausted = False, results = [], upperBound = ub\<rparr>
         = \<lparr>bmsExhausted = True, results = [], upperBound = Infinity\<rparr>"
  using assms
  by (simp add: lookback_body_def grab_bms_def bookmarks_where_time_between_reverse_def
      replace_late_bms_def Map_size_def Map_new_def)

lemma lookback_empty_log_one_iteration:
  assumes "db.bookmarks d = []" and "0 < sk + lim"
  shows "lookback_loop (Suc fuel) d sd ed sk lim
           \<lparr>bmsExhausted = False, results = [], upperBound = ub\<rparr> = Some []"
  by (simp add: lookback_body_empty_log [OF assms] lookback_loop_not_entered lookback_continues_def)

subsection \<open>Inverted windows\<close>

text \<open>
  When \<open>startDate\<close> is after \<open>endDate\<close>, the resolver and the end-date lookback return the
  empty mapping, and the bookmarks lookback can only return the empty mapping.
\<close>

lemma attemptAdd_inverted_window:
  "e < s \<Longrightarrow> attemptAdd (Some s) (Some e) m False time url = (False, m)"
  by (auto simp: attemptAdd_def Let_def)

lemma mapUrlsToLatestEvents_inverted_window:
  assumes "startDate params = Some s" and "endDate params = Some e" and "e < s"
  shows "mapUrlsToLatestEvents d params urls = []"
proof -
  have "Map_forEach (\<lambda>time url m. snd (attemptAdd (Some s) (Some e) m False time url)) src m = m"
    for src m
    unfolding Map_forEach_def
    by (induction src arbitrary: m) (auto simp: attemptAdd_inverted_window [OF assms(3)])
  then show ?thesis
    by (simp add: mapUrlsToLatestEvents_def Let_def assms(1,2))
qed

lemma lookbackFromEndDate_inverted_window:
  assumes "default_to now (endDate params) < default_to 0 (startDate params)"
  shows "lookbackFromEndDate st now d params f = []"
proof -
  let ?s = "default_to 0 (startDate params)" and ?e = "default_to now (endDate params)"
  have "filter (\<lambda>key. (?s, MIN_STR st) \<le> key \<and> key \<le> (?e, MAX_STR st)) (visits d) = []"
    using assms by (auto simp: filter_empty_conv less_eq_prod_def)
  then have v: "visits_where_time_url_between_reverse d (?s, MIN_STR st) (?e, MAX_STR st) = []"
    by (simp add: visits_where_time_url_between_reverse_def)
  have "filter (\<lambda>(time, url). ?s \<le> time \<and> number_ge (Finite ?e) time) (db.bookmarks d) = []"
    using assms by (auto simp: filter_empty_conv)
  then have b: "bookmarks_where_time_between_reverse d ?s (Finite ?e) = []"
    by (simp add: bookmarks_where_time_between_reverse_def)
  show ?thesis
    by (simp add: lookbackFromEndDate_def Let_def lookback_latestVisits_def
        lookback_latestBookmarks_def v b Map_forEach_def)
qed

lemma lookback_body_inverted_window:
  assumes "ed < sd" and "results s = []"
  shows "results (lookback_body d sd ed sk lim s) = []"
proof -
  have "filter (\<lambda>(url, time). time \<ge> sd \<and> time \<le> ed) m = []" for m :: PageResultsMap
    using assms(1) by (auto simp: filter_empty_conv)
  then show ?thesis
    by (simp add: lookback_body_def Let_def assms(2) Map_new_def)
qed

lemma lookback_loop_inverted_window:
  assumes "ed < sd" and "results s = []" and "lookback_loop fuel d sd ed sk lim s = Some r"
  shows "r = []"
  using assms(2,3)
proof (induction fuel arbitrary: s)
  case 0
  then show ?case by (simp split: if_splits)
next
  case (Suc fuel)
  show ?case
  proof (cases "lookback_continues lim s")
    case True
    with Suc.prems(2) have "lookback_loop fuel d sd ed sk lim (lookback_body d sd ed sk lim s) = Some r"
      by simp
    from Suc.IH [OF lookback_body_inverted_window [OF assms(1) Suc.prems(1)] this]
    show ?thesis .
  next
    case False
    with Suc.prems show ?thesis by simp
  qed
qed

text \<open>
  C4 fails on the code for the bookmarks lookback. With the inverted window \<open>[100, 50]\<close>
  and one bookmark at 300 nothing can be admitted, so the loop of \<open>lookbackBookmarksTime\<close>
  runs as in the case before and never returns a mapping.
\<close>

theorem lookbackBookmarksTime_inverted_window_never_returns:
  "lookbackBookmarksTime fuel 1000 \<lparr>visits = [], bookmarks = [(300, ''x'')]\<rparr>
     \<lparr>startDate = Some 100, endDate = Some 50, skip = Some 0, limit = Some 1, bookmarks = True\<rparr>
   = None"
proof -
  let ?d = "\<lparr>visits = [], bookmarks = [(300, ''x'')]\<rparr>"
  let ?s0 = "\<lparr>bmsExhausted = False, results = [], upperBound = Finite 1000\<rparr>"
  let ?s1 = "\<lparr>bmsExhausted = False, results = [], upperBound = Infinity\<rparr>"
  have b0: "lookback_body ?d 100 50 0 1 ?s0 = ?s1"
    by (simp add: lookback_body_def grab_bms_def bookmarks_where_time_between_reverse_def
        replace_late_bms_def replace_with_visit_def visits_where_url_equals_reverse_def
        Map_size_def Map_new_def)
  have b1: "lookback_body ?d 100 50 0 1 ?s1 = ?s1"
    by (simp add: lookback_body_def grab_bms_def bookmarks_where_time_between_reverse_def
        replace_late_bms_def replace_with_visit_def visits_where_url_equals_reverse_def
        Map_size_def Map_new_def)
  have c0: "lookback_continues 1 ?s0" and c1: "lookback_continues 1 ?s1"
    by (simp_all add: lookback_continues_def Map_size_def)
  have "lookback_loop fuel ?d 100 50 0 1 ?s0 = None"
    by (rule lookback_loop_stuck_after_one) (simp_all only: b0 b1 c0 c1)
  then show ?thesis
    by (simp add: lookbackBookmarksTime_def default_to_def)
qed

end
